theory Spec2Isabelle
  imports Main
begin

section \<open>Python strings, slices and ranges\<close>

text \<open>
  A Python \<open>str\<close> is a sequence of Unicode code points and \<open>len\<close> counts code points.
  Texts are therefore lists of code points; \<open>ascii\<close> embeds an ASCII literal of the
  source. The source contains three emoji, which are single code points.
\<close>

type_synonym str = "nat list"

definition ascii :: "string \<Rightarrow> str" where
  "ascii s = map of_char s"

text \<open>Exceptions of the source that the model keeps as values.\<close>

datatype error = IndexError | ValueError | APIError

text \<open>
  \<open>xs[i:j]\<close> for non-negative \<open>i\<close> and \<open>j\<close>: both ends are clamped to the length,
  the slice never raises.
\<close>

definition slice :: "'a list \<Rightarrow> nat \<Rightarrow> nat \<Rightarrow> 'a list" where
  "slice xs i j = take (j - i) (drop i xs)"

text \<open>
  \<open>range(i, stop, step)\<close> for a positive step. (A step of zero raises ValueError and a
  negative step with \<open>0 \<le> stop\<close> is empty; the callers decide that before they come here.)
\<close>

function range_step :: "nat \<Rightarrow> nat \<Rightarrow> nat \<Rightarrow> nat list" where
  "range_step i stop step =
     (if 0 < step \<and> i < stop then i # range_step (i + step) stop step else [])"
  by pat_completeness auto
termination
  by (relation "measure (\<lambda>(i, stop, step). stop - i)") auto

declare range_step.simps [simp del]

text \<open>
  \<open>str.isspace\<close> on one code point: the characters that \<open>str.strip()\<close> removes.
\<close>

definition isspace :: "nat \<Rightarrow> bool" where
  "isspace c =
     ((9 \<le> c \<and> c \<le> 13) \<or> (28 \<le> c \<and> c \<le> 32) \<or> c = 133 \<or> c = 160 \<or> c = 5760
       \<or> (8192 \<le> c \<and> c \<le> 8202) \<or> c = 8232 \<or> c = 8233 \<or> c = 8239 \<or> c = 8287
       \<or> c = 12288)"

definition strip :: "str \<Rightarrow> str" where
  "strip s = rev (dropWhile isspace (rev (dropWhile isspace s)))"

text \<open>\<open>sep.join(parts)\<close>.\<close>

fun join :: "str \<Rightarrow> str list \<Rightarrow> str" where
  "join sep [] = []"
| "join sep [p] = p"
| "join sep (p # q # ps) = p @ sep @ join sep (q # ps)"

definition startswith :: "'a list \<Rightarrow> 'a list \<Rightarrow> bool" where
  "startswith s p = (take (length p) s = p)"

text \<open>
  \<open>s.replace(old, new)\<close> for a non-empty \<open>old\<close>: the occurrences are replaced from
  left to right, without overlap.
\<close>

function replace :: "str \<Rightarrow> str \<Rightarrow> str \<Rightarrow> str" where
  "replace old new [] = []"
| "replace old new (c # cs) =
     (if old \<noteq> [] \<and> startswith (c # cs) old
      then new @ replace old new (drop (length old - 1) cs)
      else c # replace old new cs)"
  by pat_completeness auto
termination
  by (relation "measure (\<lambda>(old, new, s). length s)") auto

text \<open>
  \<open>s.split(sep)\<close> for a non-empty \<open>sep\<close>: the pieces between the occurrences of
  \<open>sep\<close>, found from left to right without overlap; \<open>cur\<close> is the piece being
  read, reversed.
\<close>

function split_from :: "str \<Rightarrow> str \<Rightarrow> str \<Rightarrow> str list" where
  "split_from sep cur [] = [rev cur]"
| "split_from sep cur (c # cs) =
     (if sep \<noteq> [] \<and> startswith (c # cs) sep
      then rev cur # split_from sep [] (drop (length sep - 1) cs)
      else split_from sep (c # cur) cs)"
  by pat_completeness auto
termination
  by (relation "measure (\<lambda>(sep, cur, s). length s)") auto

definition split :: "str \<Rightarrow> str \<Rightarrow> str list" where
  "split s sep = split_from sep [] s"

text \<open>\<open>needle in s\<close> on strings: the substring test.\<close>

fun contains :: "str \<Rightarrow> str \<Rightarrow> bool" where
  "contains [] needle = (needle = [])"
| "contains (c # cs) needle = (startswith (c # cs) needle \<or> contains cs needle)"


section \<open>Blocks\<close>

text \<open>
  A block is the dictionary \<open>{"object": "block", "type": T, T: body}\<close> that
  \<open>make_block\<close>, \<open>make_callout\<close> and \<open>make_divider\<close> build. The body holds at most
  the key \<open>"rich_text"\<close>, always a list of one text item
  \<open>[{"type": "text", "text": {"content": t}}]\<close>, and the key \<open>"icon"\<close>
  (\<open>{"emoji": icon}\<close>). \<open>rich_text = None\<close> and \<open>icon = None\<close> say that the key is
  absent, as in the empty body of a divider.
\<close>

datatype body = Body (rich_text: "str option") (icon: "str option")

datatype block = Block (block_type: str) (content: body)

definition make_block :: "str \<Rightarrow> str \<Rightarrow> block" where
  "make_block text btype = Block btype (Body (Some text) None)"

definition make_callout :: "str \<Rightarrow> str \<Rightarrow> block" where
  "make_callout text emoji =
     (let text = (if length text > 2000 then take 1997 text @ ascii ''...'' else text)
      in Block (ascii ''callout'') (Body (Some text) (Some emoji)))"

definition make_divider :: block where
  "make_divider = Block (ascii ''divider'') (Body None None)"


section \<open>The block encoder and the paginator\<close>

definition MAX_LENGTH :: nat where
  "MAX_LENGTH = 2000"

text \<open>The nested function \<open>safe_chunk_text\<close> of \<open>parse_html_to_blocks\<close>.\<close>

definition safe_chunk_text :: "str \<Rightarrow> str \<Rightarrow> block list" where
  "safe_chunk_text text btype =
     (if length text \<le> MAX_LENGTH then [make_block text btype]
      else map (\<lambda>i. let chunk = slice text i (i + 1800);
                        chunk = (if length chunk > MAX_LENGTH then take MAX_LENGTH chunk
                                 else chunk)
                    in make_block chunk btype)
               (range_step 0 (length text) 1800))"

text \<open>
  The document arrives as markup and is parsed by BeautifulSoup, a library outside the
  repository. The model starts from what the source reads off the parse tree: the
  elements that \<open>soup.find_all(["h2", "h3", "p", "ul", "ol", "table"])\<close> returns, in
  that order, each with the texts that \<open>get_text(separator=" ", strip=True)\<close> gives:
  the text of a heading or paragraph, the texts of the \<open>li\<close> items of a list, and for
  a table the cell texts of each \<open>tr\<close> row.
\<close>

datatype element =
    H2 str
  | H3 str
  | P str
  | UL "str list"
  | OL "str list"
  | TABLE "str list list"

definition list_item_blocks :: "str \<Rightarrow> str \<Rightarrow> block list" where
  "list_item_blocks btype text =
     (if text \<noteq> [] \<and> length text > 10
      then (if length text \<le> MAX_LENGTH then [make_block text btype]
            else safe_chunk_text text btype)
      else [])"

text \<open>The code points of the emoji: open book, books, bar chart.\<close>

definition summary_text :: str where
  "summary_text = 128214 # ascii '' This is a comprehensive Wikipedia article imported into Notion. Content is split across multiple pages for better organization.''"

definition table_prefix :: str where
  "table_prefix = 128202 # ascii '' Table Data:'' @ [10, 10]"

fun element_blocks :: "element \<Rightarrow> block list" where
  "element_blocks (H2 t) =
     (let text = replace (ascii ''[edit]'') [] t
      in if text \<noteq> [] \<and> length text \<le> MAX_LENGTH
         then [make_divider, make_block text (ascii ''heading_2'')] else [])"
| "element_blocks (H3 t) =
     (let text = replace (ascii ''[edit]'') [] t
      in if text \<noteq> [] \<and> length text \<le> MAX_LENGTH
         then [make_block text (ascii ''heading_3'')] else [])"
| "element_blocks (P text) =
     (if text \<noteq> [] \<and> length text > 50 then safe_chunk_text text (ascii ''paragraph'') else [])"
| "element_blocks (UL items) =
     concat (map (list_item_blocks (ascii ''bulleted_list_item'')) items)"
| "element_blocks (OL items) =
     concat (map (list_item_blocks (ascii ''numbered_list_item'')) items)"
| "element_blocks (TABLE rows) =
     (let table_text = concat (map (\<lambda>cols. join (ascii '' | '') cols @ [10]) rows)
      in if strip table_text \<noteq> []
         then (let table_text = strip table_text;
                   table_text = (if length table_text > 1900
                                 then take 1900 table_text @ [10, 10] @ ascii ''[Table truncated...]''
                                 else table_text)
               in [make_callout (table_prefix @ table_text) [128202]])
         else [])"

text \<open>The flat block sequence \<open>all_blocks\<close> that the element loop leaves behind.\<close>

definition html_blocks :: "element list \<Rightarrow> block list" where
  "html_blocks elements =
     [make_callout summary_text [128218], make_divider] @ concat (map element_blocks elements)"

text \<open>
  The last loop of \<open>parse_html_to_blocks\<close>, which splits the blocks into pages.
  \<open>max_blocks_per_page\<close> is a Python int: \<open>range\<close> raises ValueError on a zero step
  and is empty on a negative one.
\<close>

definition split_into_pages :: "'b list \<Rightarrow> int \<Rightarrow> error + 'b list list" where
  "split_into_pages blocks max_blocks_per_page =
     (if max_blocks_per_page = 0 then Inl ValueError
      else if max_blocks_per_page < 0 then Inr []
      else Inr (map (\<lambda>i. slice blocks i (i + nat max_blocks_per_page))
                    (range_step 0 (length blocks) (nat max_blocks_per_page))))"

definition parse_html_to_blocks :: "element list \<Rightarrow> int \<Rightarrow> error + block list list" where
  "parse_html_to_blocks elements max_blocks_per_page =
     split_into_pages (html_blocks elements) max_blocks_per_page"


text \<open>
  The text a block carries: the content of its rich-text item, and nothing for a block
  without one.
\<close>

definition block_text :: "block \<Rightarrow> str" where
  "block_text b = (case rich_text (content b) of Some t \<Rightarrow> t | None \<Rightarrow> [])"


section \<open>The append-validation guard\<close>

text \<open>
  \<open>validate_blocks\<close> prints one warning for each block it truncates; the model
  returns the printed lines, in order, beside the validated list.
\<close>

datatype warning = Truncating (warned_type: str) (warned_from: nat) (warned_to: nat)

text \<open>
  The body of the loop. \<open>content_key\<close> is the type of the block on both branches of
  the source, and in a block built by the three constructors the key of that name is
  always present, so the test that is left is the one for \<open>"rich_text"\<close>. The
  source overwrites the text inside the block and appends the same object; the blocks of
  one list are distinct objects, so the model rebuilds the block.
\<close>

definition validate_block :: "block \<Rightarrow> warning list \<times> block" where
  "validate_block b =
     (let btype = block_type b
      in case rich_text (content b) of
           Some text_content \<Rightarrow>
             if length text_content > MAX_LENGTH
             then ([Truncating btype (length text_content) MAX_LENGTH],
                   Block btype (Body (Some (take MAX_LENGTH text_content)) (icon (content b))))
             else ([], b)
         | None \<Rightarrow> ([], b))"

fun validate_blocks :: "block list \<Rightarrow> warning list \<times> block list" where
  "validate_blocks [] = ([], [])"
| "validate_blocks (b # blocks) =
     (let (w, b') = validate_block b;
          (ws, validated_blocks) = validate_blocks blocks
      in (w @ ws, b' # validated_blocks))"


section \<open>The infobox extractor\<close>

text \<open>
  A Python dict keeps its keys in insertion order, and an assignment to a key that is
  already there replaces the value in place.
\<close>

fun dict_set :: "'k \<Rightarrow> 'v \<Rightarrow> ('k \<times> 'v) list \<Rightarrow> ('k \<times> 'v) list" where
  "dict_set k v [] = [(k, v)]"
| "dict_set k v (p # ps) = (if fst p = k then (k, v) # ps else p # dict_set k v ps)"

text \<open>
  What \<open>extract_infobox\<close> reads off the parse tree: the first table of class
  \<open>infobox\<close>, if the document has one, as the list of its \<open>tr\<close> rows; for each row
  the text of its first \<open>th\<close> and of its first \<open>td\<close>, where the row has one.
  (A tag that was found is true in a condition, whatever it contains.)
\<close>

type_synonym row = "str option \<times> str option"

fun infobox_rows :: "row list \<Rightarrow> (str \<times> str) list \<Rightarrow> (str \<times> str) list" where
  "infobox_rows [] data = data"
| "infobox_rows ((Some key, Some val) # rows) data =
     (if key \<noteq> [] \<and> val \<noteq> [] then infobox_rows rows (dict_set key val data)
      else infobox_rows rows data)"
| "infobox_rows (_ # rows) data = infobox_rows rows data"

text \<open>
  The entry that one row stands for in the words of the specification: a row with a
  header cell and a data cell, both with a text that is not empty, gives its key and
  value; any other row gives nothing.
\<close>

definition row_entry :: "row \<Rightarrow> (str \<times> str) option" where
  "row_entry r =
     (case r of
        (Some key, Some val) \<Rightarrow> if key \<noteq> [] \<and> val \<noteq> [] then Some (key, val) else None
      | _ \<Rightarrow> None)"

definition extract_infobox :: "row list option \<Rightarrow> (str \<times> str) list" where
  "extract_infobox infobox =
     (case infobox of None \<Rightarrow> [] | Some rows \<Rightarrow> infobox_rows rows [])"


section \<open>The destination store\<close>

text \<open>
  The pages of the database and their blocks live in Notion, outside the repository. The
  model of the store follows the interface that the specification gives it: a query
  answers with a list of pages, the children of a page are an ordered list of blocks,
  an append adds its blocks at the end of that list, and a page can be archived. Every
  call may fail; the store says which ones do:
  \<^item> \<open>query_results\<close> is the answer to the query of \<open>get_database_pages\<close>, or
    \<open>None\<close> when that call raises;
  \<^item> a page absent from \<open>children\<close> does not exist, and a call on it raises;
  \<^item> \<open>appends_left = Some n\<close> lets \<open>n\<close> further append calls succeed and makes the
    next one raise; \<open>None\<close> lets all of them succeed;
  \<^item> archiving a page listed in \<open>unarchivable\<close> raises.
  \<open>append_calls\<close> records every append request that was sent, in order.
  A page of a query answer is read only through \<open>page["id"]\<close> and the content of the
  first item of its \<open>Name\<close> title.
\<close>

datatype page = Page (page_id: str) (page_title: str)

record 'b notion =
  query_results :: "page list option"
  children :: "(str \<times> 'b list) list"
  archived :: "str list"
  appends_left :: "nat option"
  unarchivable :: "str list"
  append_calls :: "(str \<times> 'b list) list"

definition databases_query :: "'b notion \<Rightarrow> error + page list" where
  "databases_query st = (case query_results st of None \<Rightarrow> Inl APIError | Some ps \<Rightarrow> Inr ps)"

definition blocks_children_list :: "'b notion \<Rightarrow> str \<Rightarrow> error + 'b list" where
  "blocks_children_list st pid =
     (case map_of (children st) pid of None \<Rightarrow> Inl APIError | Some bs \<Rightarrow> Inr bs)"

definition blocks_children_append ::
  "'b notion \<Rightarrow> str \<Rightarrow> 'b list \<Rightarrow> 'b notion \<times> (error + unit)" where
  "blocks_children_append st pid batch =
     (let sent = st\<lparr>append_calls := append_calls st @ [(pid, batch)]\<rparr>
      in case map_of (children st) pid of
           None \<Rightarrow> (sent, Inl APIError)
         | Some bs \<Rightarrow>
             (case appends_left st of
                Some 0 \<Rightarrow> (sent, Inl APIError)
              | Some (Suc n) \<Rightarrow>
                  (sent\<lparr>children := dict_set pid (bs @ batch) (children st),
                        appends_left := Some n\<rparr>, Inr ())
              | None \<Rightarrow>
                  (sent\<lparr>children := dict_set pid (bs @ batch) (children st)\<rparr>, Inr ())))"

definition pages_update_archived :: "'b notion \<Rightarrow> str \<Rightarrow> 'b notion \<times> (error + unit)" where
  "pages_update_archived st pid =
     (if pid \<in> set (unarchivable st) \<or> map_of (children st) pid = None
      then (st, Inl APIError)
      else (st\<lparr>archived := List.insert pid (archived st)\<rparr>, Inr ()))"


section \<open>The reassembly engine\<close>

definition get_database_pages :: "'b notion \<Rightarrow> page list" where
  "get_database_pages st = (case databases_query st of Inl e \<Rightarrow> [] | Inr ps \<Rightarrow> ps)"

definition get_page_blocks :: "'b notion \<Rightarrow> str \<Rightarrow> 'b list" where
  "get_page_blocks st pid = (case blocks_children_list st pid of Inl e \<Rightarrow> [] | Inr bs \<Rightarrow> bs)"

text \<open>
  \<open>int(s)\<close> on a string, in base ten: surrounding whitespace is dropped, a sign may
  lead, and single underscores may stand between digits. The part numbers of this
  program are written by an f-string from an int, in ASCII digits; the digits of other
  scripts, which Python reads as well, are not digits of the model, and Python's refusal
  of a string of more than 4300 digits is not modelled.
\<close>

definition isdigit :: "nat \<Rightarrow> bool" where
  "isdigit c = (48 \<le> c \<and> c \<le> 57)"

fun parse_digits :: "nat \<Rightarrow> str \<Rightarrow> nat option" where
  "parse_digits acc [] = Some acc"
| "parse_digits acc [c] = (if isdigit c then Some (10 * acc + (c - 48)) else None)"
| "parse_digits acc (c # d # ds) =
     (if isdigit c then parse_digits (10 * acc + (c - 48)) (d # ds)
      else if c = 95 \<and> isdigit d then parse_digits (10 * acc + (d - 48)) ds
      else None)"

definition int_of_str :: "str \<Rightarrow> error + int" where
  "int_of_str s =
     (let t = strip s;
          (neg, u) = (case t of [] \<Rightarrow> (False, t)
                      | c # r \<Rightarrow> if c = 45 then (True, r) else if c = 43 then (False, r)
                                 else (False, t))
      in case u of
           [] \<Rightarrow> Inl ValueError
         | d # ds \<Rightarrow>
             if isdigit d
             then (case parse_digits (d - 48) ds of
                     None \<Rightarrow> Inl ValueError
                   | Some n \<Rightarrow> Inr (if neg then - int n else int n))
             else Inl ValueError)"

text \<open>
  The name that \<open>add_article_to_database\<close> gives the page of chunk \<open>i\<close>, for
  \<open>i\<close> from 2 on: \<open>f"{title} (Part {i})"\<close>, the number in decimal digits.
\<close>

fun str_of_nat :: "nat \<Rightarrow> str" where
  "str_of_nat n = (if n < 10 then [48 + n] else str_of_nat (n div 10) @ [48 + n mod 10])"

declare str_of_nat.simps [simp del]

definition part_title :: "str \<Rightarrow> nat \<Rightarrow> str" where
  "part_title title i = title @ ascii '' (Part '' @ str_of_nat i @ ascii '')''"

text \<open>
  The sort key of the part pages:
  \<open>int(title.split("(Part ")[1].split(")")[0])\<close>. The index 1 raises IndexError
  when the title has no \<open>"(Part "\<close>; a split always has a first piece.
\<close>

definition part_number :: "str \<Rightarrow> error + int" where
  "part_number name =
     (case split name (ascii ''(Part '') of
        p0 # p1 # ps \<Rightarrow>
          (case split p1 (ascii '')'') of
             q0 # qs \<Rightarrow> int_of_str q0
           | [] \<Rightarrow> Inl IndexError)
      | _ \<Rightarrow> Inl IndexError)"

text \<open>
  \<open>list.sort(key=...)\<close> computes the key of every element first, in order, and an
  exception of the key function leaves the sort undone; the sort is stable.
\<close>

fun sort_keys :: "page list \<Rightarrow> error + (int \<times> page) list" where
  "sort_keys [] = Inr []"
| "sort_keys (p # ps) =
     (case part_number (page_title p) of
        Inl e \<Rightarrow> Inl e
      | Inr k \<Rightarrow> (case sort_keys ps of Inl e \<Rightarrow> Inl e | Inr kps \<Rightarrow> Inr ((k, p) # kps)))"

definition sort_part_pages :: "page list \<Rightarrow> error + page list" where
  "sort_part_pages part_pages =
     (case sort_keys part_pages of
        Inl e \<Rightarrow> Inl e
      | Inr kps \<Rightarrow> Inr (map snd (sort_key fst kps)))"

text \<open>The loop that finds the main page and the part pages.\<close>

fun classify :: "str \<Rightarrow> page list \<Rightarrow> page option \<Rightarrow> page list \<Rightarrow> page option \<times> page list" where
  "classify title [] main_page part_pages = (main_page, part_pages)"
| "classify title (p # pages) main_page part_pages =
     (if page_title p = title then classify title pages (Some p) part_pages
      else if contains (page_title p) (title @ ascii '' (Part'')
           then classify title pages main_page (part_pages @ [p])
           else classify title pages main_page part_pages)"

text \<open>The batches of the append loop, and the loop: it stops at the first call that raises.\<close>

definition batches :: "'b list \<Rightarrow> 'b list list" where
  "batches all_blocks =
     map (\<lambda>i. slice all_blocks i (i + 50)) (range_step 0 (length all_blocks) 50)"

fun append_batches :: "'b notion \<Rightarrow> str \<Rightarrow> 'b list list \<Rightarrow> 'b notion \<times> (error + unit)" where
  "append_batches st pid [] = (st, Inr ())"
| "append_batches st pid (batch # rest) =
     (case blocks_children_append st pid batch of
        (st', Inl e) \<Rightarrow> (st', Inl e)
      | (st', Inr u) \<Rightarrow> append_batches st' pid rest)"

text \<open>The archiving loop: an exception of one call is caught and the loop goes on.\<close>

fun archive_parts :: "'b notion \<Rightarrow> page list \<Rightarrow> 'b notion" where
  "archive_parts st [] = st"
| "archive_parts st (p # ps) = archive_parts (fst (pages_update_archived st (page_id p))) ps"

text \<open>
  \<open>combine_pages_into_single\<close>. The database identifier selects the database whose
  query answer the store holds, and the infobox argument is not used. The result is
  the store after the call and what the call returns: \<open>Inr (Some id)\<close> for an
  identifier, \<open>Inr None\<close> for Python's \<open>None\<close>, \<open>Inl e\<close> for an exception that
  leaves the function.
\<close>

definition combine_pages_into_single ::
  "'b notion \<Rightarrow> str \<Rightarrow> 'b notion \<times> (error + str option)" where
  "combine_pages_into_single st title =
     (let pages = get_database_pages st
      in if pages = [] then (st, Inr None)
         else
           (let (main_page, part_pages) = classify title pages None []
            in case sort_part_pages part_pages of
                 Inl e \<Rightarrow> (st, Inl e)
               | Inr part_pages \<Rightarrow>
                   (case main_page of
                      None \<Rightarrow> (st, Inr None)
                    | Some main \<Rightarrow>
                        (let main_blocks = get_page_blocks st (page_id main);
                             all_blocks = main_blocks
                               @ concat (map (\<lambda>p. get_page_blocks st (page_id p)) part_pages)
                         in case append_batches st (page_id main) (batches all_blocks) of
                              (st', Inl e) \<Rightarrow> (st', Inr None)
                            | (st', Inr u) \<Rightarrow>
                                (archive_parts st' part_pages, Inr (Some (page_id main)))))))"


section \<open>Slices and ranges\<close>

lemma length_slice: "length (slice xs i j) = min (j - i) (length xs - i)"
  by (simp add: slice_def)

lemma concat_slices:
  "0 < step \<Longrightarrow>
   concat (map (\<lambda>i. slice xs i (i + step)) (range_step k (length xs) step)) = drop k xs"
proof (induction k "length xs" step rule: range_step.induct)
  case (1 i step)
  show ?case
  proof (cases "i < length xs")
    case True
    have "slice xs i (i + step) @ drop (i + step) xs = drop i xs"
      by (simp add: slice_def add.commute [of i step] flip: drop_drop)
    with True 1 show ?thesis
      by (simp add: range_step.simps [of i])
  next
    case False
    then show ?thesis
      by (simp add: range_step.simps [of i])
  qed
qed

lemma length_range_step:
  "0 < step \<Longrightarrow> length (range_step k n step) = (n - k + step - 1) div step"
proof (induction k n step rule: range_step.induct)
  case (1 i stop step)
  show ?case
  proof (cases "i < stop")
    case True
    from True \<open>0 < step\<close> have "step \<le> stop - i + step - 1"
      by simp
    with \<open>0 < step\<close>
    have "(stop - i + step - 1) div step = Suc ((stop - i + step - 1 - step) div step)"
      by (rule le_div_geq)
    moreover have "(stop - i + step - 1 - step) div step = (stop - (i + step) + step - 1) div step"
    proof (cases "i + step \<le> stop")
      case True
      then have "stop - i + step - 1 - step = stop - (i + step) + step - 1"
        by simp
      then show ?thesis by simp
    next
      case False
      with \<open>i < stop\<close> \<open>0 < step\<close> have "stop - i + step - 1 - step < step"
        and "stop - (i + step) + step - 1 < step"
        by simp_all
      then show ?thesis by simp
    qed
    ultimately
    have "(stop - i + step - 1) div step = Suc ((stop - (i + step) + step - 1) div step)"
      by simp
    with True 1 show ?thesis
      by (simp add: range_step.simps [of i])
  next
    case False
    then show ?thesis using 1(2)
      by (simp add: range_step.simps [of i])
  qed
qed

lemma nth_range_step:
  "0 < step \<Longrightarrow> j < length (range_step k n step) \<Longrightarrow> range_step k n step ! j = k + j * step"
proof (induction k n step arbitrary: j rule: range_step.induct)
  case (1 i stop step)
  show ?case
  proof (cases "i < stop")
    case True
    show ?thesis
    proof (cases j)
      case 0
      with True 1(2) show ?thesis by (simp add: range_step.simps [of i])
    next
      case (Suc j')
      with True 1 show ?thesis by (simp add: range_step.simps [of i])
    qed
  next
    case False
    with 1(3) show ?thesis by (simp add: range_step.simps [of i])
  qed
qed

lemma range_step_rec:
  "0 < step \<Longrightarrow> i < stop \<Longrightarrow> range_step i stop step = i # range_step (i + step) stop step"
  by (simp add: range_step.simps [of i])

lemma range_step_done:
  "stop \<le> i \<Longrightarrow> range_step i stop step = []"
  by (simp add: range_step.simps [of i])


section \<open>Pages of bounded size\<close>

text \<open>
  C2. For a positive \<open>max_blocks_per_page\<close> the paginator returns pages of at most that
  many blocks, the page lengths add up to the length of the block sequence, and the
  pages concatenated in order are the block sequence; 200 blocks at 90 per page make
  three pages of 90, 90 and 20 blocks.
\<close>

theorem split_into_pages_partition:
  assumes "0 < m"
  shows "\<exists>pages. split_into_pages blocks m = Inr pages
           \<and> (\<forall>p \<in> set pages. length p \<le> nat m)
           \<and> sum_list (map length pages) = length blocks
           \<and> concat pages = blocks
           \<and> (length blocks = 200 \<and> m = 90 \<longrightarrow> map length pages = [90, 90, 20])"
proof -
  define pages where
    "pages = map (\<lambda>i. slice blocks i (i + nat m)) (range_step 0 (length blocks) (nat m))"
  from assms have res: "split_into_pages blocks m = Inr pages"
    by (simp add: split_into_pages_def pages_def)
  have bound: "\<forall>p \<in> set pages. length p \<le> nat m"
    by (auto simp: pages_def length_slice)
  from assms have cat: "concat pages = blocks"
    using concat_slices [of "nat m" blocks 0] by (simp add: pages_def)
  have "sum_list (map length pages) = length (concat pages)"
    by (simp add: length_concat)
  with cat have total: "sum_list (map length pages) = length blocks"
    by simp
  have "range_step 0 200 90 = [0, 90, 180]"
    by (simp add: range_step_rec range_step_done)
  then have scen: "length blocks = 200 \<and> m = 90 \<longrightarrow> map length pages = [90, 90, 20]"
    by (simp add: pages_def length_slice)
  show ?thesis
    by (intro exI [of _ pages] conjI) (rule res bound total cat scen)+
qed



theorem split_into_pages_partition_witness:
  "(0::int) < 90 \<and>
   (\<exists>pages. split_into_pages (replicate 200 (7::nat)) 90 = Inr pages
      \<and> (\<forall>p \<in> set pages. length p \<le> nat 90)
      \<and> sum_list (map length pages) = length (replicate 200 (7::nat))
      \<and> concat pages = replicate 200 7
      \<and> map length pages = [90, 90, 20])"
  using split_into_pages_partition [of 90 "replicate 200 (7::nat)"]
  by simp


section \<open>Chunking of long texts\<close>

lemma safe_chunk_text_long:
  "2000 < length text \<Longrightarrow>
   safe_chunk_text text btype =
     map (\<lambda>i. make_block (slice text i (i + 1800)) btype) (range_step 0 (length text) 1800)"
  by (simp add: safe_chunk_text_def MAX_LENGTH_def length_slice Let_def)

text \<open>
  C5. A text of more than 2000 characters is cut at every 1800th character: the blocks
  have the kind that was asked for, block \<open>j\<close> carries the characters from
  \<open>1800 * j\<close> up to \<open>1800 * j + 1800\<close>, every block has at most 2000 characters, the
  texts of the blocks concatenate to the text, and 4500 characters make three blocks.
\<close>

theorem safe_chunk_text_chunks:
  assumes "2000 < length text"
  shows "(\<forall>b \<in> set (safe_chunk_text text btype).
            block_type b = btype \<and> rich_text (content b) \<noteq> None \<and> length (block_text b) \<le> 2000)
       \<and> (\<forall>j < length (safe_chunk_text text btype).
            safe_chunk_text text btype ! j = make_block (slice text (1800 * j) (1800 * j + 1800)) btype)
       \<and> length (safe_chunk_text text btype) = (length text + 1799) div 1800
       \<and> concat (map block_text (safe_chunk_text text btype)) = text
       \<and> (length text = 4500 \<longrightarrow> length (safe_chunk_text text btype) = 3)"
proof -
  let ?bs = "safe_chunk_text text btype"
  note long = safe_chunk_text_long [OF assms, of btype]
  have each: "\<forall>b \<in> set ?bs.
      block_type b = btype \<and> rich_text (content b) \<noteq> None \<and> length (block_text b) \<le> 2000"
    by (auto simp: long make_block_def block_text_def length_slice)
  have len: "length ?bs = (length text + 1799) div 1800"
    by (simp add: long length_range_step)
  have nth: "\<forall>j < length ?bs. ?bs ! j = make_block (slice text (1800 * j) (1800 * j + 1800)) btype"
    by (simp add: long nth_range_step mult.commute)
  have "map block_text ?bs = map (\<lambda>i. slice text i (i + 1800)) (range_step 0 (length text) 1800)"
    by (simp add: long make_block_def block_text_def comp_def)
  then have cat: "concat (map block_text ?bs) = text"
    using concat_slices [of 1800 "text" 0] by simp
  from len have scen: "length text = 4500 \<longrightarrow> length ?bs = 3"
    by simp
  from each nth len cat scen show ?thesis
    by blast
qed



theorem safe_chunk_text_chunks_witness:
  "2000 < length (replicate 4500 (120::nat))
   \<and> length (safe_chunk_text (replicate 4500 120) (ascii ''paragraph'')) = 3
   \<and> concat (map block_text (safe_chunk_text (replicate 4500 120) (ascii ''paragraph'')))
       = replicate 4500 120"
  using safe_chunk_text_chunks [of "replicate 4500 (120::nat)" "ascii ''paragraph''"]
  by simp


section \<open>A document without content elements\<close>

lemma length_summary_text: "length summary_text = 129"
  by (simp add: summary_text_def ascii_def)

text \<open>
  C3, as the claim states it, fails: for a document in which none of the six elements
  is found the encoder does not return an empty block sequence.
\<close>

theorem parse_html_no_content_counterexample:
  "html_blocks [] \<noteq> [] \<and> parse_html_to_blocks [] 90 \<noteq> Inr []"
  by (simp add: html_blocks_def parse_html_to_blocks_def split_into_pages_def
      range_step_rec)

text \<open>
  C3, amended. For a document in which none of the six elements is found the encoder
  does not raise and returns exactly the two leading blocks, the summary callout with
  its full text and a divider, as one page.
\<close>

theorem parse_html_no_content:
  "html_blocks [] =
     [Block (ascii ''callout'') (Body (Some summary_text) (Some [128218])),
      Block (ascii ''divider'') (Body None None)]
   \<and> parse_html_to_blocks [] 90 =
     Inr [[Block (ascii ''callout'') (Body (Some summary_text) (Some [128218])),
           Block (ascii ''divider'') (Body None None)]]"
proof -
  have blocks: "html_blocks [] =
     [Block (ascii ''callout'') (Body (Some summary_text) (Some [128218])),
      Block (ascii ''divider'') (Body None None)]"
    by (simp add: html_blocks_def make_callout_def make_divider_def length_summary_text)
  have "range_step 0 (Suc (Suc 0)) 90 = [0]"
    by (simp add: range_step_rec range_step_done)
  then have "parse_html_to_blocks [] 90 = Inr [html_blocks []]"
    by (simp add: parse_html_to_blocks_def split_into_pages_def slice_def blocks)
  with blocks show ?thesis
    by simp
qed


section \<open>Texts within the limit\<close>

lemma snd_validate_block:
  "snd (validate_block b) =
     Block (block_type b) (Body (map_option (take 2000) (rich_text (content b))) (icon (content b)))"
  by (cases b; cases "content b")
     (auto simp: validate_block_def MAX_LENGTH_def Let_def split: option.splits)

lemma fst_validate_block:
  "fst (validate_block b) =
     (if 2000 < length (block_text b)
      then [Truncating (block_type b) (length (block_text b)) 2000] else [])"
  by (auto simp: validate_block_def MAX_LENGTH_def block_text_def Let_def split: option.splits)

lemma snd_validate_blocks:
  "snd (validate_blocks blocks) = map (\<lambda>b. snd (validate_block b)) blocks"
  by (induction blocks) (simp_all add: case_prod_beta)

lemma fst_validate_blocks:
  "fst (validate_blocks blocks) = concat (map (\<lambda>b. fst (validate_block b)) blocks)"
  by (induction blocks) (simp_all add: case_prod_beta)

lemma block_text_validated:
  "block_text (snd (validate_block b)) = take 2000 (block_text b)"
  by (simp add: snd_validate_block block_text_def split: option.splits)

lemma validate_block_short:
  "length (block_text b) \<le> 2000 \<Longrightarrow> validate_block b = ([], b)"
  by (auto simp: validate_block_def MAX_LENGTH_def block_text_def Let_def split: option.splits)

text \<open>
  C4. The guard drops no block; every block of its output carries a text of at most 2000
  characters; block \<open>i\<close> of the output is block \<open>i\<close> of the input with its text cut
  to the first 2000 characters, which are exactly 2000 characters when the text was
  longer; and one warning is printed for each block that was cut, in order.
\<close>

theorem validate_blocks_text_limit:
  "length (snd (validate_blocks blocks)) = length blocks
   \<and> (\<forall>b \<in> set (snd (validate_blocks blocks)). length (block_text b) \<le> 2000)
   \<and> (\<forall>i < length blocks.
         block_type (snd (validate_blocks blocks) ! i) = block_type (blocks ! i)
       \<and> icon (content (snd (validate_blocks blocks) ! i)) = icon (content (blocks ! i))
       \<and> rich_text (content (snd (validate_blocks blocks) ! i))
           = map_option (take 2000) (rich_text (content (blocks ! i)))
       \<and> (2000 < length (block_text (blocks ! i))
            \<longrightarrow> length (block_text (snd (validate_blocks blocks) ! i)) = 2000))
   \<and> fst (validate_blocks blocks) =
       [Truncating (block_type b) (length (block_text b)) 2000.
          b \<leftarrow> blocks, 2000 < length (block_text b)]"
proof (intro conjI)
  show "length (snd (validate_blocks blocks)) = length blocks"
    by (simp add: snd_validate_blocks)
  show "\<forall>b \<in> set (snd (validate_blocks blocks)). length (block_text b) \<le> 2000"
    by (auto simp: snd_validate_blocks block_text_validated)
  show "\<forall>i < length blocks.
         block_type (snd (validate_blocks blocks) ! i) = block_type (blocks ! i)
       \<and> icon (content (snd (validate_blocks blocks) ! i)) = icon (content (blocks ! i))
       \<and> rich_text (content (snd (validate_blocks blocks) ! i))
           = map_option (take 2000) (rich_text (content (blocks ! i)))
       \<and> (2000 < length (block_text (blocks ! i))
            \<longrightarrow> length (block_text (snd (validate_blocks blocks) ! i)) = 2000)"
    by (simp add: snd_validate_blocks block_text_validated) (simp add: snd_validate_block)
  show "fst (validate_blocks blocks) =
       [Truncating (block_type b) (length (block_text b)) 2000.
          b \<leftarrow> blocks, 2000 < length (block_text b)]"
    by (induction blocks) (simp_all add: case_prod_beta fst_validate_block)
qed

theorem validate_blocks_text_limit_witness:
  "validate_blocks [make_block (replicate 2001 120) (ascii ''paragraph''), make_divider] =
     ([Truncating (ascii ''paragraph'') 2001 2000],
      [make_block (replicate 2000 120) (ascii ''paragraph''), make_divider])
   \<and> length (block_text (snd (validate_blocks
          [make_block (replicate 2001 120) (ascii ''paragraph''), make_divider]) ! 0)) = 2000"
  using validate_blocks_text_limit
    [of "[make_block (replicate 2001 120) (ascii ''paragraph''), make_divider]"]
  by (simp add: validate_block_def make_block_def make_divider_def MAX_LENGTH_def Let_def
      block_text_def)

text \<open>
  C10. The guard keeps the length and the order of the list: block \<open>i\<close> of the output
  has the kind and the icon of block \<open>i\<close> of the input, and is that block unchanged when
  its text has at most 2000 characters. A second pass changes nothing and prints no
  warning.
\<close>

theorem validate_blocks_idempotent:
  "length (snd (validate_blocks blocks)) = length blocks
   \<and> map block_type (snd (validate_blocks blocks)) = map block_type blocks
   \<and> map (\<lambda>b. icon (content b)) (snd (validate_blocks blocks))
       = map (\<lambda>b. icon (content b)) blocks
   \<and> (\<forall>i < length blocks.
         length (block_text (blocks ! i)) \<le> 2000
           \<longrightarrow> snd (validate_blocks blocks) ! i = blocks ! i)
   \<and> validate_blocks (snd (validate_blocks blocks)) = ([], snd (validate_blocks blocks))"
proof (intro conjI)
  show "length (snd (validate_blocks blocks)) = length blocks"
    by (simp add: snd_validate_blocks)
  show "map block_type (snd (validate_blocks blocks)) = map block_type blocks"
    by (simp add: snd_validate_blocks snd_validate_block comp_def)
  show "map (\<lambda>b. icon (content b)) (snd (validate_blocks blocks))
       = map (\<lambda>b. icon (content b)) blocks"
    by (simp add: snd_validate_blocks snd_validate_block comp_def)
  show "\<forall>i < length blocks.
         length (block_text (blocks ! i)) \<le> 2000
           \<longrightarrow> snd (validate_blocks blocks) ! i = blocks ! i"
    by (simp add: snd_validate_blocks validate_block_short)
  have again: "validate_block (snd (validate_block b)) = ([], snd (validate_block b))" for b
    by (rule validate_block_short) (simp add: block_text_validated)
  show "validate_blocks (snd (validate_blocks blocks)) = ([], snd (validate_blocks blocks))"
    by (induction blocks) (simp_all add: case_prod_beta again)
qed

theorem validate_blocks_idempotent_witness:
  "snd (validate_blocks [make_block (replicate 2001 120) (ascii ''paragraph''),
          make_block (ascii ''short'') (ascii ''heading_2'')]) ! 1
     = make_block (ascii ''short'') (ascii ''heading_2'')
   \<and> validate_blocks (snd (validate_blocks
        [make_block (replicate 2001 120) (ascii ''paragraph''),
         make_block (ascii ''short'') (ascii ''heading_2'')]))
     = ([], [make_block (replicate 2000 120) (ascii ''paragraph''),
             make_block (ascii ''short'') (ascii ''heading_2'')])"
  using validate_blocks_idempotent
    [of "[make_block (replicate 2001 120) (ascii ''paragraph''),
          make_block (ascii ''short'') (ascii ''heading_2'')]"]
  by (simp add: validate_block_def make_block_def MAX_LENGTH_def ascii_def Let_def)


section \<open>The extracted mapping\<close>

lemma map_of_dict_set: "map_of (dict_set k v d) = (map_of d)(k \<mapsto> v)"
  by (induction d) (auto simp: fun_eq_iff)

lemma in_dict_setD: "(a, b) \<in> set (dict_set k v d) \<Longrightarrow> a = k \<or> a \<in> fst ` set d"
  by (induction d) (auto split: if_splits intro: rev_image_eqI)

lemma distinct_dict_set: "distinct (map fst d) \<Longrightarrow> distinct (map fst (dict_set k v d))"
  by (induction d) (auto dest: in_dict_setD)

lemma map_add_singleton: "m ++ (Map.empty(k \<mapsto> v) ++ n) = m(k \<mapsto> v) ++ n"
  by (rule ext) (simp add: map_add_def split: option.splits)

lemma map_of_infobox_rows:
  "map_of (infobox_rows rows data) =
     map_of data ++ map_of (rev (List.map_filter row_entry rows))"
proof (induction rows data rule: infobox_rows.induct)
  case (1 data)
  show ?case by (simp add: map_filter_simps)
next
  case (2 key val rows data)
  show ?case
  proof (cases "key \<noteq> [] \<and> val \<noteq> []")
    case True
    then have "map_of (infobox_rows ((Some key, Some val) # rows) data) =
        map_of (dict_set key val data) ++ map_of (rev (List.map_filter row_entry rows))"
      using 2(1) by simp
    also have "\<dots> = map_of data
        ++ (Map.empty(key \<mapsto> val) ++ map_of (rev (List.map_filter row_entry rows)))"
      by (simp only: map_of_dict_set map_add_singleton)
    also have "\<dots> = map_of data
        ++ map_of (rev (List.map_filter row_entry ((Some key, Some val) # rows)))"
      using True by (simp add: map_filter_simps row_entry_def)
    finally show ?thesis .
  next
    case False
    then have "row_entry (Some key, Some val) = None"
      by (auto simp: row_entry_def)
    with False 2(2) show ?thesis
      by (auto simp: map_filter_simps)
  qed
qed (simp_all add: map_filter_simps row_entry_def split: option.splits)

lemma distinct_infobox_rows:
  "distinct (map fst data) \<Longrightarrow> distinct (map fst (infobox_rows rows data))"
  by (induction rows data rule: infobox_rows.induct) (simp_all add: distinct_dict_set)

text \<open>
  C8. Without an infobox table the result is the empty mapping. With one, the mapping
  is built from the rows that have a header cell and a data cell, both with a text that
  is not empty, and the last such row of a key gives its value; every key occurs once.
  The rows (Born, 1 Jan 1900), (empty, ignored), (Died, 2 Feb 2000) give the two entries
  for Born and Died.
\<close>

theorem extract_infobox_mapping:
  "extract_infobox None = []
   \<and> map_of (extract_infobox (Some rows)) =
       map_of (rev (List.map_filter row_entry rows))
   \<and> distinct (map fst (extract_infobox (Some rows)))
   \<and> extract_infobox (Some [(Some (ascii ''Born''), Some (ascii ''1 Jan 1900'')),
                              (Some [], Some (ascii ''ignored'')),
                              (Some (ascii ''Died''), Some (ascii ''2 Feb 2000''))])
       = [(ascii ''Born'', ascii ''1 Jan 1900''), (ascii ''Died'', ascii ''2 Feb 2000'')]"
proof (intro conjI)
  show "extract_infobox None = []"
    by (simp add: extract_infobox_def)
  show "map_of (extract_infobox (Some rows)) =
       map_of (rev (List.map_filter row_entry rows))"
    by (simp add: extract_infobox_def map_of_infobox_rows)
  show "distinct (map fst (extract_infobox (Some rows)))"
    by (simp add: extract_infobox_def distinct_infobox_rows)
  show "extract_infobox (Some [(Some (ascii ''Born''), Some (ascii ''1 Jan 1900'')),
                              (Some [], Some (ascii ''ignored'')),
                              (Some (ascii ''Died''), Some (ascii ''2 Feb 2000''))])
       = [(ascii ''Born'', ascii ''1 Jan 1900''), (ascii ''Died'', ascii ''2 Feb 2000'')]"
    by (simp add: extract_infobox_def ascii_def)
qed

theorem extract_infobox_mapping_witness:
  "map_of (extract_infobox (Some [(Some (ascii ''K''), Some (ascii ''old'')),
                                  (None, Some (ascii ''no header'')),
                                  (Some (ascii ''no data''), None),
                                  (Some (ascii ''K''), Some (ascii ''new''))])) (ascii ''K'')
     = Some (ascii ''new'')
   \<and> distinct (map fst (extract_infobox (Some [(Some (ascii ''K''), Some (ascii ''old'')),
                                  (None, Some (ascii ''no header'')),
                                  (Some (ascii ''no data''), None),
                                  (Some (ascii ''K''), Some (ascii ''new''))])))"
  using extract_infobox_mapping
    [of "[(Some (ascii ''K''), Some (ascii ''old'')),
          (None, Some (ascii ''no header'')),
          (Some (ascii ''no data''), None),
          (Some (ascii ''K''), Some (ascii ''new''))]"]
  by (simp add: ascii_def extract_infobox_def row_entry_def map_filter_simps)


section \<open>The batched append\<close>

lemma dict_set_twice: "dict_set k v (dict_set k w d) = dict_set k v d"
  by (induction d) auto

lemma dict_set_same: "map_of d k = Some v \<Longrightarrow> dict_set k v d = d"
  by (induction d) (auto split: if_splits)

lemma blocks_children_append_ok:
  assumes "appends_left st = None" and "map_of (children st) pid = Some cs"
  shows "blocks_children_append st pid batch =
           (st\<lparr>children := dict_set pid (cs @ batch) (children st),
               append_calls := append_calls st @ [(pid, batch)]\<rparr>, Inr ())"
  using assms by (simp add: blocks_children_append_def)

lemma append_batches_ok:
  assumes "appends_left st = None" and "map_of (children st) pid = Some cs"
  shows "append_batches st pid bs =
           (st\<lparr>children := dict_set pid (cs @ concat bs) (children st),
               append_calls := append_calls st @ map (Pair pid) bs\<rparr>, Inr ())"
  using assms
proof (induction bs arbitrary: st cs)
  case Nil
  then have "dict_set pid cs (children st) = children st"
    by (simp add: dict_set_same)
  then show ?case by simp
next
  case (Cons b bs)
  let ?st = "st\<lparr>children := dict_set pid (cs @ b) (children st),
                 append_calls := append_calls st @ [(pid, b)]\<rparr>"
  have step: "blocks_children_append st pid b = (?st, Inr ())"
    using Cons.prems by (rule blocks_children_append_ok)
  have "appends_left ?st = None" and "map_of (children ?st) pid = Some (cs @ b)"
    using Cons.prems by (simp_all add: map_of_dict_set)
  then have "append_batches ?st pid bs =
      (?st\<lparr>children := dict_set pid ((cs @ b) @ concat bs) (children ?st),
           append_calls := append_calls ?st @ map (Pair pid) bs\<rparr>, Inr ())"
    by (rule Cons.IH)
  with step show ?case
    by (simp add: dict_set_twice)
qed

lemma batches_slices:
  "length (batches blocks) = (length blocks + 49) div 50"
  "j < length (batches blocks) \<Longrightarrow> batches blocks ! j = slice blocks (50 * j) (50 * j + 50)"
  "concat (batches blocks) = blocks"
proof -
  show "length (batches blocks) = (length blocks + 49) div 50"
    by (simp add: batches_def length_range_step)
  show "batches blocks ! j = slice blocks (50 * j) (50 * j + 50)" if "j < length (batches blocks)"
    using that by (simp add: batches_def nth_range_step mult.commute)
  show "concat (batches blocks) = blocks"
    using concat_slices [of 50 blocks 0] by (simp add: batches_def)
qed





section \<open>What the reassembly returns\<close>


lemma classify_parts:
  "snd (classify title pages main_page part_pages) =
     part_pages @ filter (\<lambda>p. page_title p \<noteq> title
                              \<and> contains (page_title p) (title @ ascii '' (Part'')) pages"
  by (induction pages arbitrary: main_page part_pages) auto





lemma children_archive_parts: "children (archive_parts st ps) = children st"
  by (induction ps arbitrary: st) (simp_all add: pages_update_archived_def)

lemma combine_unfold:
  assumes "classify title (get_database_pages st) None [] = (Some main, part_pages)"
    and "sort_part_pages part_pages = Inr ordered"
  shows "combine_pages_into_single st title =
     (case append_batches st (page_id main)
             (batches (get_page_blocks st (page_id main)
                @ concat (map (\<lambda>p. get_page_blocks st (page_id p)) ordered))) of
        (st', Inl e) \<Rightarrow> (st', Inr None)
      | (st', Inr u) \<Rightarrow> (archive_parts st' ordered, Inr (Some (page_id main))))"
proof -
  have "get_database_pages st \<noteq> []"
    using assms(1) by auto
  with assms show ?thesis
    by (simp add: combine_pages_into_single_def Let_def)
qed







section \<open>The children of the main page after reassembly\<close>

text \<open>
  C1. The claim does not hold for the code. The blocks collected from the main page are
  appended to the main page together with those of the part pages, so after a run in
  which no call fails the children of the main page are its original children, then
  its original children once more, then the children of the part pages in sorted
  order.
\<close>

theorem combine_children_after_success:
  assumes "classify title (get_database_pages st) None [] = (Some main, part_pages)"
    and "sort_part_pages part_pages = Inr ordered"
    and "appends_left st = None"
    and "map_of (children st) (page_id main) = Some cs"
  shows "snd (combine_pages_into_single st title) = Inr (Some (page_id main))
       \<and> map_of (children (fst (combine_pages_into_single st title))) (page_id main)
           = Some (cs @ cs @ concat (map (\<lambda>p. get_page_blocks st (page_id p)) ordered))"
proof -
  let ?parts = "concat (map (\<lambda>p. get_page_blocks st (page_id p)) ordered)"
  have main_blocks: "get_page_blocks st (page_id main) = cs"
    using assms(4) by (simp add: get_page_blocks_def blocks_children_list_def)
  have run: "append_batches st (page_id main) (batches (cs @ ?parts)) =
      (st\<lparr>children := dict_set (page_id main) (cs @ cs @ ?parts) (children st),
          append_calls := append_calls st @ map (Pair (page_id main)) (batches (cs @ ?parts))\<rparr>,
       Inr ())"
    using append_batches_ok [OF assms(3, 4), of "batches (cs @ ?parts)"]
    by (simp only: batches_slices(3))
  show ?thesis
    by (simp add: combine_unfold [OF assms(1, 2)] main_blocks run children_archive_parts
        map_of_dict_set)
qed

theorem combine_children_after_success_witness:
  "combine_pages_into_single
     \<lparr>query_results = Some [Page (ascii ''m'') (ascii ''A''),
                            Page (ascii ''p'') (ascii ''A (Part 2)'')],
      children = [(ascii ''m'', [1::nat, 2]), (ascii ''p'', [3])], archived = [],
      appends_left = None, unarchivable = [], append_calls = []\<rparr>
     (ascii ''A'')
   = (\<lparr>query_results = Some [Page (ascii ''m'') (ascii ''A''),
                            Page (ascii ''p'') (ascii ''A (Part 2)'')],
      children = [(ascii ''m'', [1, 2, 1, 2, 3]), (ascii ''p'', [3])],
      archived = [ascii ''p''],
      appends_left = None, unarchivable = [], append_calls = [(ascii ''m'', [1, 2, 3])]\<rparr>,
      Inr (Some (ascii ''m'')))
   \<and> map_of (children (fst (combine_pages_into_single
     \<lparr>query_results = Some [Page (ascii ''m'') (ascii ''A''),
                            Page (ascii ''p'') (ascii ''A (Part 2)'')],
      children = [(ascii ''m'', [1::nat, 2]), (ascii ''p'', [3])], archived = [],
      appends_left = None, unarchivable = [], append_calls = []\<rparr>
     (ascii ''A'')))) (ascii ''m'') = Some [1, 2, 1, 2, 3]"
proof -
  let ?st = "\<lparr>query_results = Some [Page (ascii ''m'') (ascii ''A''),
                            Page (ascii ''p'') (ascii ''A (Part 2)'')],
      children = [(ascii ''m'', [1::nat, 2]), (ascii ''p'', [3])], archived = [],
      appends_left = None, unarchivable = [], append_calls = []\<rparr>"
  let ?main = "Page (ascii ''m'') (ascii ''A'')"
  let ?part = "Page (ascii ''p'') (ascii ''A (Part 2)'')"
  have cls: "classify (ascii ''A'') (get_database_pages ?st) None [] = (Some ?main, [?part])"
    by (simp add: get_database_pages_def databases_query_def startswith_def ascii_def)
  have srt: "sort_part_pages [?part] = Inr [?part]"
    by (simp add: sort_part_pages_def part_number_def split_def startswith_def int_of_str_def
        strip_def isspace_def isdigit_def ascii_def)
  have fault: "appends_left ?st = None"
    by simp
  have kids: "map_of (children ?st) (page_id ?main) = Some [1, 2]"
    by (simp add: ascii_def)
  have whole: "combine_pages_into_single ?st (ascii ''A'') =
    (\<lparr>query_results = Some [Page (ascii ''m'') (ascii ''A''),
                            Page (ascii ''p'') (ascii ''A (Part 2)'')],
      children = [(ascii ''m'', [1, 2, 1, 2, 3]), (ascii ''p'', [3])],
      archived = [ascii ''p''],
      appends_left = None, unarchivable = [], append_calls = [(ascii ''m'', [1, 2, 3])]\<rparr>,
      Inr (Some (ascii ''m'')))"
    by (simp add: combine_pages_into_single_def get_database_pages_def databases_query_def
        sort_part_pages_def part_number_def split_def startswith_def int_of_str_def strip_def
        isspace_def isdigit_def get_page_blocks_def blocks_children_list_def batches_def
        blocks_children_append_def pages_update_archived_def slice_def ascii_def Let_def
        range_step_rec range_step_done)
  from combine_children_after_success [OF cls srt fault kids] whole show ?thesis
    by (simp add: get_page_blocks_def blocks_children_list_def ascii_def)
qed


section \<open>The order of the part pages\<close>

lemma sort_keys_pages:
  "sort_keys ps = Inr kps \<Longrightarrow>
     map snd kps = ps \<and> (\<forall>kp \<in> set kps. part_number (page_title (snd kp)) = Inr (fst kp))"
  by (induction ps arbitrary: kps) (auto split: sum.splits)

text \<open>
  Where every key can be computed, the part pages come out in ascending order of the
  integers that \<open>part_number\<close> reads from their names, and they are the same pages.
\<close>

lemma sort_part_pages_ascending:
  assumes "sort_part_pages ps = Inr qs"
  shows "\<exists>ks. map (\<lambda>p. part_number (page_title p)) qs = map Inr ks \<and> sorted ks"
    and "set qs = set ps" and "length qs = length ps"
proof -
  from assms obtain kps where keys: "sort_keys ps = Inr kps"
    and qs: "qs = map snd (sort_key fst kps)"
    by (auto simp: sort_part_pages_def split: sum.splits)
  note kps = sort_keys_pages [OF keys]
  have "map (\<lambda>p. part_number (page_title p)) qs = map Inr (map fst (sort_key fst kps))"
    using kps by (simp add: qs)
  moreover have "sorted (map fst (sort_key fst kps))"
    by (rule sorted_sort_key)
  ultimately show "\<exists>ks. map (\<lambda>p. part_number (page_title p)) qs = map Inr ks \<and> sorted ks"
    by blast
  have "set qs = snd ` set kps"
    by (simp add: qs)
  also have "\<dots> = set (map snd kps)"
    by simp
  finally show "set qs = set ps"
    using kps by simp
  have "length qs = length (map snd kps)"
    by (simp add: qs)
  then show "length qs = length ps"
    using kps by simp
qed

text \<open>The scenario of the specification: parts 2, 10 and 3 come out as 2, 3, 10.\<close>

lemma sort_part_pages_scenario:
  "sort_part_pages [Page (ascii ''a'') (ascii ''X (Part 2)''),
                    Page (ascii ''b'') (ascii ''X (Part 10)''),
                    Page (ascii ''c'') (ascii ''X (Part 3)'')]
   = Inr [Page (ascii ''a'') (ascii ''X (Part 2)''),
          Page (ascii ''c'') (ascii ''X (Part 3)''),
          Page (ascii ''b'') (ascii ''X (Part 10)'')]"
  by (simp add: sort_part_pages_def part_number_def split_def startswith_def int_of_str_def
      strip_def isspace_def isdigit_def ascii_def)

lemma split_from_no_first:
  "sep \<noteq> [] \<Longrightarrow> hd sep \<notin> set s \<Longrightarrow> split_from sep cur s = [rev cur @ s]"
proof (induction s arbitrary: cur)
  case Nil
  then show ?case by simp
next
  case (Cons c s)
  from Cons.prems have "\<not> startswith (c # s) sep"
    by (cases sep) (auto simp: startswith_def)
  with Cons show ?case by simp
qed

lemma startswith_append_self: "startswith (sep @ rest) sep"
  by (simp add: startswith_def)

lemma split_from_at_sep:
  "sep \<noteq> [] \<Longrightarrow> split_from sep cur (sep @ rest) = rev cur # split_from sep [] rest"
  by (cases sep) (simp_all add: startswith_def)

lemma no_straddle:
  assumes border: "\<forall>k. 0 < k \<and> k < length sep \<longrightarrow> sep ! k \<noteq> hd sep"
    and sep: "sep \<noteq> []"
    and inside: "\<not> startswith pre sep"
    and pre: "pre \<noteq> []"
  shows "\<not> startswith (pre @ sep @ rest) sep"
proof
  assume occ: "startswith (pre @ sep @ rest) sep"
  show False
  proof (cases "length sep \<le> length pre")
    case True
    with occ have "startswith pre sep"
      by (simp add: startswith_def)
    with inside show False ..
  next
    case False
    then have k: "0 < length pre" "length pre < length sep"
      using pre by simp_all
    from occ have "sep ! length pre = (pre @ sep @ rest) ! length pre"
      using k by (metis nth_take startswith_def)
    also have "\<dots> = hd sep"
      using sep by (simp add: nth_append hd_conv_nth)
    finally show False
      using border k by blast
  qed
qed

lemma split_from_first_occurrence:
  assumes border: "\<forall>k. 0 < k \<and> k < length sep \<longrightarrow> sep ! k \<noteq> hd sep"
    and sep: "sep \<noteq> []"
  shows "\<not> contains pre sep \<Longrightarrow>
         split_from sep cur (pre @ sep @ rest) = (rev cur @ pre) # split_from sep [] rest"
proof (induction pre arbitrary: cur)
  case Nil
  then show ?case using sep by (simp add: split_from_at_sep)
next
  case (Cons a pre)
  from Cons.prems have inside: "\<not> startswith (a # pre) sep" and rest: "\<not> contains pre sep"
    by simp_all
  have "\<not> startswith ((a # pre) @ sep @ rest) sep"
    using border sep inside by (rule no_straddle) simp
  then have "split_from sep cur ((a # pre) @ sep @ rest)
      = split_from sep (a # cur) (pre @ sep @ rest)"
    by simp
  also have "\<dots> = (rev (a # cur) @ pre) # split_from sep [] rest"
    using rest by (rule Cons.IH)
  finally show ?case by simp
qed


lemma str_of_nat_digits: "c \<in> set (str_of_nat n) \<Longrightarrow> isdigit c"
proof (induction n rule: str_of_nat.induct)
  case (1 n)
  show ?case
  proof (cases "n < 10")
    case True
    with "1.prems" show ?thesis
      by (simp add: str_of_nat.simps [of n] isdigit_def)
  next
    case False
    have "n mod 10 < 10" by simp
    then have "isdigit (48 + n mod 10)"
      unfolding isdigit_def by linarith
    with False 1 show ?thesis
      by (auto simp: str_of_nat.simps [of n])
  qed
qed

lemma str_of_nat_not_Nil: "str_of_nat n \<noteq> []"
  by (simp add: str_of_nat.simps [of n])

lemma parse_digits_value:
  "\<forall>c \<in> set ds. isdigit c \<Longrightarrow> parse_digits acc ds = Some (foldl (\<lambda>a c. 10 * a + (c - 48)) acc ds)"
  by (induction acc ds rule: parse_digits.induct) simp_all

lemma digits_value_str_of_nat: "foldl (\<lambda>a c. 10 * a + (c - 48)) 0 (str_of_nat n) = n"
proof (induction n rule: str_of_nat.induct)
  case (1 n)
  show ?case
  proof (cases "n < 10")
    case True
    then show ?thesis
      by (simp add: str_of_nat.simps [of n])
  next
    case False
    with 1 have "foldl (\<lambda>a c. 10 * a + (c - 48)) 0 (str_of_nat (n div 10)) = n div 10"
      by simp
    with False show ?thesis
      by (simp add: str_of_nat.simps [of n])
  qed
qed

lemma isdigit_not_space: "isdigit c \<Longrightarrow> \<not> isspace c"
  by (auto simp: isdigit_def isspace_def)

lemma dropWhile_none: "\<forall>c \<in> set xs. \<not> Q c \<Longrightarrow> dropWhile Q xs = xs"
  by (cases xs) auto

lemma strip_digits: "\<forall>c \<in> set ds. isdigit c \<Longrightarrow> strip ds = ds"
proof -
  assume "\<forall>c \<in> set ds. isdigit c"
  then have none: "\<forall>c \<in> set ds. \<not> isspace c"
    by (auto dest: isdigit_not_space)
  then have "dropWhile isspace ds = ds"
    by (rule dropWhile_none)
  moreover from none have "dropWhile isspace (rev ds) = rev ds"
    by (intro dropWhile_none) simp
  ultimately show ?thesis
    by (simp add: strip_def)
qed

lemma int_of_str_str_of_nat: "int_of_str (str_of_nat n) = Inr (int n)"
proof -
  obtain d ds where ds: "str_of_nat n = d # ds"
    using str_of_nat_not_Nil [of n] by (cases "str_of_nat n") auto
  have all: "\<forall>c \<in> set (d # ds). isdigit c"
    using str_of_nat_digits [of _ n] by (simp add: ds)
  then have d: "isdigit d" and rest: "\<forall>c \<in> set ds. isdigit c"
    by simp_all
  from d have sign: "d \<noteq> 45" "d \<noteq> 43"
    by (auto simp: isdigit_def)
  have "parse_digits (d - 48) ds = Some (foldl (\<lambda>a c. 10 * a + (c - 48)) (d - 48) ds)"
    using rest by (rule parse_digits_value)
  also have "foldl (\<lambda>a c. 10 * a + (c - 48)) (d - 48) ds = foldl (\<lambda>a c. 10 * a + (c - 48)) 0 (d # ds)"
    by simp
  also have "\<dots> = n"
    using digits_value_str_of_nat [of n] by (simp add: ds)
  finally have "parse_digits (d - 48) ds = Some n" .
  moreover have "strip (d # ds) = d # ds"
    using all by (rule strip_digits)
  ultimately show ?thesis
    using d sign by (simp add: int_of_str_def ds)
qed

lemma startswith_butlast:
  "startswith (s @ [c]) (p @ [c']) \<Longrightarrow> startswith s p"
proof -
  assume occ: "startswith (s @ [c]) (p @ [c'])"
  then have eq: "take (Suc (length p)) (s @ [c]) = p @ [c']"
    by (simp add: startswith_def)
  then have "length (take (Suc (length p)) (s @ [c])) = Suc (length p)"
    by simp
  then have len: "length p \<le> length s"
    by simp
  have m: "min (length p) (Suc (length p)) = length p"
    by simp
  have "take (length p) (s @ [c]) = take (length p) (take (Suc (length p)) (s @ [c]))"
    by (simp only: take_take m)
  also have "\<dots> = take (length p) (p @ [c'])"
    by (simp only: eq)
  also have "\<dots> = p"
    by simp
  finally have "take (length p) (s @ [c]) = p" .
  with len show ?thesis
    by (simp add: startswith_def)
qed

lemma contains_butlast:
  "contains (s @ [c]) (p @ [c']) \<Longrightarrow> contains s p"
proof (induction s)
  case Nil
  then have "startswith [c] (p @ [c'])"
    by simp
  then have "p = []"
    by (cases p) (auto simp: startswith_def)
  then show ?case by simp
next
  case (Cons a s)
  then show ?case
    using startswith_butlast [of "a # s" c p c'] by auto
qed

lemma contains_hd: "contains s sep \<Longrightarrow> sep \<noteq> [] \<Longrightarrow> hd sep \<in> set s"
  by (induction s) (auto simp: startswith_def, (cases sep; auto)+)

text \<open>
  For a title in which \<open>"(Part"\<close> does not occur, the key of the page that was named
  for chunk \<open>i\<close> is \<open>i\<close>.
\<close>

lemma part_number_part_title:
  assumes "\<not> contains title (ascii ''(Part'')"
  shows "part_number (part_title title i) = Inr (int i)"
proof -
  let ?sep = "ascii ''(Part ''"
  let ?tail = "str_of_nat i @ ascii '')''"
  have border: "\<forall>k. 0 < k \<and> k < length ?sep \<longrightarrow> ?sep ! k \<noteq> hd ?sep"
  proof (intro allI impI)
    fix k assume "0 < k \<and> k < length ?sep"
    then have "k \<in> {1, 2, 3, 4, 5}"
      by (auto simp: ascii_def)
    then show "?sep ! k \<noteq> hd ?sep"
      by (auto simp: ascii_def)
  qed
  have sep: "?sep \<noteq> []"
    by (simp add: ascii_def)
  have "?sep = ascii ''(Part'' @ [32]"
    by (simp add: ascii_def)
  then have pre: "\<not> contains (title @ [32]) ?sep"
    using assms contains_butlast [of title 32 "ascii ''(Part''" 32] by auto
  have digits: "\<forall>c \<in> set (str_of_nat i). isdigit c"
    by (simp add: str_of_nat_digits)
  then have "hd ?sep \<notin> set ?tail"
    by (auto simp: ascii_def isdigit_def)
  with sep have tail: "split_from ?sep [] ?tail = [?tail]"
    by (simp add: split_from_no_first)
  have "part_title title i = (title @ [32]) @ ?sep @ ?tail"
    by (simp add: part_title_def ascii_def)
  then have "split (part_title title i) ?sep = (title @ [32]) # split_from ?sep [] ?tail"
    using split_from_first_occurrence [OF border sep pre, of "[]" ?tail]
    by (simp add: split_def)
  with tail have first: "split (part_title title i) ?sep = [title @ [32], ?tail]"
    by simp
  from digits have "41 \<notin> set (str_of_nat i)"
    by (auto simp: isdigit_def)
  then have no_paren: "\<not> contains (str_of_nat i) [41]"
    using contains_hd [of "str_of_nat i" "[41]"] by auto
  have "split_from [41] [] (str_of_nat i @ [41] @ []) = (rev [] @ str_of_nat i) # split_from [41] [] []"
    by (rule split_from_first_occurrence [OF _ _ no_paren]) auto
  then have second: "split ?tail (ascii '')'') = [str_of_nat i, []]"
    by (simp add: split_def ascii_def)
  show ?thesis
    by (simp add: part_number_def first second int_of_str_str_of_nat)
qed

lemma insort_key_map:
  "insort_key f (h x) (map h ys) = map h (insort_key (\<lambda>y. f (h y)) x ys)"
  by (induction ys) simp_all

lemma sort_key_map: "sort_key f (map h xs) = map h (sort_key (\<lambda>y. f (h y)) xs)"
  by (induction xs) (simp_all add: insort_key_map)

text \<open>
  The pages named for the chunks of a title in which \<open>"(Part"\<close> does not occur are
  sorted by their numbers, as integers.
\<close>

lemma sort_part_pages_numeric:
  assumes "\<not> contains title (ascii ''(Part'')"
  shows "sort_part_pages (map (\<lambda>x. Page (fst x) (part_title title (snd x))) xs)
         = Inr (map (\<lambda>x. Page (fst x) (part_title title (snd x))) (sort_key (\<lambda>x. int (snd x)) xs))"
proof -
  let ?page = "\<lambda>x. Page (fst x) (part_title title (snd x))"
  have keys: "sort_keys (map ?page xs) = Inr (map (\<lambda>x. (int (snd x), ?page x)) xs)"
    by (induction xs) (simp_all add: part_number_part_title [OF assms])
  have "map snd (sort_key fst (map (\<lambda>x. (int (snd x), ?page x)) xs))
      = map ?page (sort_key (\<lambda>x. int (snd x)) xs)"
    by (simp add: sort_key_map comp_def)
  with keys show ?thesis
    by (simp add: sort_part_pages_def)
qed

text \<open>
  C6. The claim does not hold for every title. The key is read after the first
  \<open>"(Part "\<close> of the page name, not from its suffix: for the article titled
  \<open>A (Part 1)\<close> the part pages \<open>A (Part 1) (Part 3)\<close> and \<open>A (Part 1) (Part 2)\<close> both
  get the key 1, and the stable sort leaves them in the order of the query answer,
  part 3 before part 2.
\<close>

theorem sort_part_pages_first_occurrence:
  "classify (ascii ''A (Part 1)'')
     [Page (ascii ''m'') (ascii ''A (Part 1)''),
      Page (ascii ''p3'') (ascii ''A (Part 1) (Part 3)''),
      Page (ascii ''p2'') (ascii ''A (Part 1) (Part 2)'')] None []
   = (Some (Page (ascii ''m'') (ascii ''A (Part 1)'')),
      [Page (ascii ''p3'') (ascii ''A (Part 1) (Part 3)''),
       Page (ascii ''p2'') (ascii ''A (Part 1) (Part 2)'')])
   \<and> part_number (ascii ''A (Part 1) (Part 3)'') = Inr 1
   \<and> part_number (ascii ''A (Part 1) (Part 2)'') = Inr 1
   \<and> sort_part_pages [Page (ascii ''p3'') (ascii ''A (Part 1) (Part 3)''),
                       Page (ascii ''p2'') (ascii ''A (Part 1) (Part 2)'')]
       = Inr [Page (ascii ''p3'') (ascii ''A (Part 1) (Part 3)''),
              Page (ascii ''p2'') (ascii ''A (Part 1) (Part 2)'')]"
  by (simp add: sort_part_pages_def part_number_def split_def startswith_def int_of_str_def
      strip_def isspace_def isdigit_def ascii_def)

end
